theory Spec2Isabelle
  imports Main
begin

section \<open>Python strings\<close>

text \<open>
  A Python \<open>str\<close> is a sequence of code points. The development models the code points
  below 256 (Basic Latin and Latin-1), one \<^typ>\<open>char\<close> each, and the string operations the
  checkers call are defined on them as CPython defines them on that range.
\<close>

text \<open>\<open>str.isspace\<close> on one character; the set \<open>str.split()\<close>, \<open>str.strip()\<close> and the
  regular expression class \<open>\s\<close> use.\<close>

definition whitespace_chars :: string where
  "whitespace_chars =
     [CHR 0x09, CHR 0x0A, CHR 0x0B, CHR 0x0C, CHR 0x0D, CHR 0x1C, CHR 0x1D, CHR 0x1E,
      CHR 0x1F, CHR 0x20, CHR 0x85, CHR 0xA0]"

definition is_space :: "char \<Rightarrow> bool" where
  "is_space c = (c \<in> set whitespace_chars)"

text \<open>\<open>string.punctuation\<close>.\<close>

definition punctuation :: string where
  "punctuation =
     [CHR ''!'', CHR 0x22, CHR ''#'', CHR ''$'', CHR ''%'', CHR ''&'', CHR 0x27, CHR ''('',
      CHR '')'', CHR ''*'', CHR ''+'', CHR '','', CHR ''-'', CHR ''.'', CHR ''/'', CHR '':'',
      CHR '';'', CHR ''<'', CHR ''='', CHR ''>'', CHR ''?'', CHR ''@'', CHR ''['', CHR 0x5C,
      CHR '']'', CHR ''^'', CHR ''_'', CHR 0x60, CHR ''{'', CHR ''|'', CHR ''}'', CHR ''~'']"

text \<open>\<open>string.ascii_uppercase\<close>, \<open>string.ascii_lowercase\<close>, \<open>string.ascii_letters\<close>.\<close>

definition ascii_upper :: string where
  "ascii_upper = ''ABCDEFGHIJKLMNOPQRSTUVWXYZ''"

definition ascii_lowercase :: string where
  "ascii_lowercase = ''abcdefghijklmnopqrstuvwxyz''"

definition ascii_letters :: string where
  "ascii_letters = ascii_upper @ ascii_lowercase"

text \<open>\<open>str.lower\<close>: the letters \<open>A\<close>-\<open>Z\<close> and the Latin-1 capitals U+00C0-U+00DE
  (U+00D7, the multiplication sign, apart) move up by 32; every other code point below 256
  is its own lower case.\<close>

definition lower_char :: "char \<Rightarrow> char" where
  "lower_char c =
     (let n = (of_char c :: nat)
      in if (65 \<le> n \<and> n \<le> 90) \<or> (192 \<le> n \<and> n \<le> 222 \<and> n \<noteq> 215)
         then char_of (n + 32) else c)"

definition lower :: "string \<Rightarrow> string" where
  "lower s = map lower_char s"

text \<open>\<open>s.strip()\<close>.\<close>

definition strip :: "string \<Rightarrow> string" where
  "strip s = rev (dropWhile is_space (rev (dropWhile is_space s)))"

text \<open>\<open>s.startswith(p)\<close> and \<open>s.endswith(p)\<close>.\<close>

fun startswith :: "string \<Rightarrow> string \<Rightarrow> bool" where
  "startswith s [] = True"
| "startswith [] (p # ps) = False"
| "startswith (c # cs) (p # ps) = (c = p \<and> startswith cs ps)"

definition endswith :: "string \<Rightarrow> string \<Rightarrow> bool" where
  "endswith s p = startswith (rev s) (rev p)"

text \<open>\<open>sub in s\<close>: the substring test.\<close>

fun contains :: "string \<Rightarrow> string \<Rightarrow> bool" where
  "contains [] sub = (sub = [])"
| "contains (c # cs) sub = (startswith (c # cs) sub \<or> contains cs sub)"

text \<open>\<open>s.split()\<close> with no separator: the maximal runs of characters that are not
  whitespace. \<open>cur\<close> is the run being read.\<close>

fun split_run :: "string \<Rightarrow> string \<Rightarrow> string list" where
  "split_run cur [] = (if cur = [] then [] else [cur])"
| "split_run cur (c # cs) =
     (if is_space c then (if cur = [] then split_run [] cs else cur # split_run [] cs)
      else split_run (cur @ [c]) cs)"

definition split :: "string \<Rightarrow> string list" where
  "split s = split_run [] s"

text \<open>\<open>s.split(sep)\<close> with a separator: it raises \<open>ValueError\<close> on the empty separator;
  otherwise the string is cut at each occurrence of \<open>sep\<close>, found left to right and not
  overlapping. \<open>skip\<close> counts the characters of a separator still to pass over.\<close>

datatype py_exception = ValueError | SyntaxError | TypeError | IndexError | RecursionError

fun split_at :: "string \<Rightarrow> nat \<Rightarrow> string \<Rightarrow> string \<Rightarrow> string list" where
  "split_at sep skip cur [] = [cur]"
| "split_at sep (Suc k) cur (c # cs) = split_at sep k cur cs"
| "split_at sep 0 cur (c # cs) =
     (if startswith (c # cs) sep then cur # split_at sep (length sep - 1) [] cs
      else split_at sep 0 (cur @ [c]) cs)"

definition split_sep :: "string \<Rightarrow> string \<Rightarrow> py_exception + string list" where
  "split_sep s sep = (if sep = [] then Inl ValueError else Inr (split_at sep 0 [] s))"

text \<open>\<open>sep.join(parts)\<close>.\<close>

fun join :: "string \<Rightarrow> string list \<Rightarrow> string" where
  "join sep [] = []"
| "join sep [p] = p"
| "join sep (p # q # ps) = p @ sep @ join sep (q # ps)"

text \<open>\<open>s.replace(old, new)\<close> for a non-empty \<open>old\<close>: every occurrence, left to right and
  not overlapping. With an empty \<open>old\<close> Python puts \<open>new\<close> before every character and at
  the end.\<close>

fun replace_at :: "string \<Rightarrow> string \<Rightarrow> nat \<Rightarrow> string \<Rightarrow> string" where
  "replace_at old new skip [] = []"
| "replace_at old new (Suc k) (c # cs) = replace_at old new k cs"
| "replace_at old new 0 (c # cs) =
     (if startswith (c # cs) old then new @ replace_at old new (length old - 1) cs
      else c # replace_at old new 0 cs)"

definition replace :: "string \<Rightarrow> string \<Rightarrow> string \<Rightarrow> string" where
  "replace s old new =
     (if old = [] then concat (map (\<lambda>c. new @ [c]) s) @ new else replace_at old new 0 s)"

section \<open>utils.py: comparison semantics\<close>

datatype ComparisonOption = Exactly | AtMost | AtLeast

definition COMPARISON_OPTIONS :: "ComparisonOption list" where
  "COMPARISON_OPTIONS = [Exactly, AtMost, AtLeast]"

fun compare_count :: "int \<Rightarrow> int \<Rightarrow> ComparisonOption \<Rightarrow> bool" where
  "compare_count result N AtLeast = (result \<ge> N)"
| "compare_count result N AtMost = (result \<le> N)"
| "compare_count result N Exactly = (result = N)"

section \<open>checkers.py: SpacesInBetweenChecker\<close>

text \<open>\<open>check_following\<close> with \<open>self.arguments["N"] = N\<close>. The separator is \<open>" " * N\<close>,
  empty when \<open>N \<le> 0\<close>; then \<open>split\<close> raises, on a value that holds a space.\<close>

definition SpacesInBetweenChecker_check_following :: "int \<Rightarrow> string \<Rightarrow> py_exception + bool" where
  "SpacesInBetweenChecker_check_following N arg_value =
     (let SEPARATOR = replicate (nat N) CHR '' ''
      in if arg_value \<noteq> strip arg_value then Inr False
         else if \<not> contains arg_value '' '' then Inr True
         else (case split_sep arg_value SEPARATOR of
                 Inl e \<Rightarrow> Inl e
               | Inr parts \<Rightarrow>
                   if length parts < 2 then Inr False
                   else if list_ex (\<lambda>part. part = []) parts then Inr False
                   else if join SEPARATOR parts \<noteq> arg_value then Inr False
                   else if list_ex (\<lambda>part. contains part '' '') parts then Inr False
                   else Inr True))"

section \<open>Regular expressions\<close>

text \<open>
  The constructs of Python's \<open>re\<close> that the program's patterns use, with the matcher's
  backtracking order. A character set is given by the characters it holds (\<open>[...]\<close>, \<open>\s\<close>)
  or leaves out (\<open>[^...]\<close>, \<open>.\<close>). \<open>Many n\<close> is the greedy and \<open>Lazy n\<close> the lazy
  repetition of a character set, at least \<open>n\<close> times; \<open>Eol\<close> is \<open>$\<close> under
  \<open>re.MULTILINE\<close> and \<open>Eos\<close> is \<open>$\<close> without it.
\<close>

datatype cset = In string | NotIn string

fun cmem :: "cset \<Rightarrow> char \<Rightarrow> bool" where
  "cmem (In cs) c = (c \<in> set cs)"
| "cmem (NotIn cs) c = (c \<notin> set cs)"

datatype rx =
    Lit string
  | Ch cset
  | Seq rx rx
  | Alt rx rx
  | Grp rx
  | Opt rx
  | Many nat cset
  | Lazy nat cset
  | Eol
  | Eos

text \<open>\<open>rx_match r s\<close> lists the ways \<open>r\<close> matches a prefix of \<open>s\<close>, the one the matcher
  tries first at the head: for each, the texts of the capturing groups (in the order of
  their opening parentheses) and the rest of \<open>s\<close> behind the match.\<close>

fun rx_match :: "rx \<Rightarrow> string \<Rightarrow> (string list \<times> string) list" where
  "rx_match (Lit l) s = (if startswith s l then [([], drop (length l) s)] else [])"
| "rx_match (Ch cs) s = (case s of [] \<Rightarrow> [] | c # t \<Rightarrow> if cmem cs c then [([], t)] else [])"
| "rx_match (Seq a b) s =
     concat (map (\<lambda>(g1, r1). map (\<lambda>(g2, r2). (g1 @ g2, r2)) (rx_match b r1)) (rx_match a s))"
| "rx_match (Alt a b) s = rx_match a s @ rx_match b s"
| "rx_match (Grp r) s =
     map (\<lambda>(g, rest). (take (length s - length rest) s # g, rest)) (rx_match r s)"
| "rx_match (Opt r) s = rx_match r s @ [([], s)]"
| "rx_match (Many n cs) s =
     map (\<lambda>k. ([], drop k s)) (rev [n ..< Suc (length (takeWhile (cmem cs) s))])"
| "rx_match (Lazy n cs) s =
     map (\<lambda>k. ([], drop k s)) [n ..< Suc (length (takeWhile (cmem cs) s))]"
| "rx_match Eol s = (case s of [] \<Rightarrow> [([], s)] | c # t \<Rightarrow> if c = CHR 0x0A then [([], s)] else [])"
| "rx_match Eos s = (if s = [] \<or> s = [CHR 0x0A] then [([], s)] else [])"

text \<open>\<open>re.match(r, s) is not None\<close>: \<open>r\<close> matches at the start of \<open>s\<close>.\<close>

definition rx_matches :: "rx \<Rightarrow> string \<Rightarrow> bool" where
  "rx_matches r s = (rx_match r s \<noteq> [])"

fun seqs :: "rx list \<Rightarrow> rx" where
  "seqs [] = Lit []"
| "seqs [r] = r"
| "seqs (r # q # rs) = Seq r (seqs (q # rs))"

fun alts :: "rx list \<Rightarrow> rx" where
  "alts [] = Ch (In [])"
| "alts [r] = r"
| "alts (r # q # rs) = Alt r (alts (q # rs))"

text \<open>\<open>re.findall(r, s)\<close>: the matches found scanning left to right, each with its
  groups; the scan goes on behind a match, and one character on after an empty one.
  \<open>skip\<close> counts the characters of the last match still to pass over.\<close>

fun findall_from :: "rx \<Rightarrow> nat \<Rightarrow> string \<Rightarrow> (string \<times> string list) list" where
  "findall_from r skip [] =
     (if skip = 0 then (case rx_match r [] of [] \<Rightarrow> [] | (g, rest) # _ \<Rightarrow> [([], g)]) else [])"
| "findall_from r (Suc k) (c # cs) = findall_from r k cs"
| "findall_from r 0 (c # cs) =
     (case rx_match r (c # cs) of
        [] \<Rightarrow> findall_from r 0 cs
      | (g, rest) # _ \<Rightarrow>
          (let n = length (c # cs) - length rest
           in (take n (c # cs), g) # findall_from r (n - 1) cs))"

text \<open>For a pattern with no group, \<open>re.findall\<close> returns the matched texts.\<close>

definition findall :: "rx \<Rightarrow> string \<Rightarrow> string list" where
  "findall r s = map fst (findall_from r 0 s)"

text \<open>\<open>re.sub(r, repl, s)\<close>: \<open>repl\<close> gets the matched text and the groups.\<close>

fun sub_from :: "rx \<Rightarrow> (string \<Rightarrow> string list \<Rightarrow> string) \<Rightarrow> nat \<Rightarrow> string \<Rightarrow> string" where
  "sub_from r repl skip [] =
     (if skip = 0 then (case rx_match r [] of [] \<Rightarrow> [] | (g, rest) # _ \<Rightarrow> repl [] g) else [])"
| "sub_from r repl (Suc k) (c # cs) = sub_from r repl k cs"
| "sub_from r repl 0 (c # cs) =
     (case rx_match r (c # cs) of
        [] \<Rightarrow> c # sub_from r repl 0 cs
      | (g, rest) # _ \<Rightarrow>
          (let n = length (c # cs) - length rest
           in if n = 0 then repl [] g @ c # sub_from r repl 0 cs
              else repl (take n (c # cs)) g @ sub_from r repl (n - 1) cs))"

definition re_sub :: "rx \<Rightarrow> (string \<Rightarrow> string list \<Rightarrow> string) \<Rightarrow> string \<Rightarrow> string" where
  "re_sub r repl s = sub_from r repl 0 s"

text \<open>A replacement template: text and group references \<open>\1\<close>, \<open>\2\<close>, ...\<close>

datatype titem = T string | G nat

fun expand :: "titem list \<Rightarrow> string \<Rightarrow> string list \<Rightarrow> string" where
  "expand [] m g = []"
| "expand (T t # is) m g = t @ expand is m g"
| "expand (G i # is) m g = (if 0 < i \<and> i \<le> length g then g ! (i - 1) else []) @ expand is m g"

section \<open>utils.py: tokenizer\<close>

text \<open>\<open>text.translate(str.maketrans(string.punctuation, " " * len(string.punctuation)))\<close>\<close>

definition translate_punctuation :: "string \<Rightarrow> string" where
  "translate_punctuation text = map (\<lambda>c. if c \<in> set punctuation then CHR '' '' else c) text"

definition clean_and_split :: "string \<Rightarrow> bool \<Rightarrow> string list" where
  "clean_and_split text lower_flag =
     (let cleaned = translate_punctuation text
      in if lower_flag then split (lower cleaned) else split cleaned)"

section \<open>utils.py: sampling\<close>

text \<open>
  The program draws from Python's global random source. A draw is an argument of the
  model: \<open>random.choice(seq)\<close> is \<open>seq[_randbelow(len(seq))]\<close> and raises \<open>IndexError\<close> on
  an empty sequence, \<open>random.randint(a, b)\<close> is \<open>a + _randbelow(b - a + 1)\<close>, and
  \<open>_randbelow(n)\<close> with the raw draw \<open>r\<close> is \<open>r mod n\<close>, so that \<open>r\<close> ranging over the
  naturals gives every outcome.
\<close>

definition random_choice :: "nat \<Rightarrow> 'a list \<Rightarrow> py_exception + 'a" where
  "random_choice r seq = (if seq = [] then Inl IndexError else Inr (seq ! (r mod length seq)))"

definition random_randint :: "nat \<Rightarrow> int \<Rightarrow> int \<Rightarrow> py_exception + int" where
  "random_randint r a b =
     (if b < a then Inl ValueError else Inr (a + int (r mod nat (b - a + 1))))"

definition sample_comparison_option ::
  "nat \<Rightarrow> ComparisonOption list option \<Rightarrow> py_exception + ComparisonOption" where
  "sample_comparison_option r ignore_options =
     (case ignore_options of
        None \<Rightarrow> random_choice r COMPARISON_OPTIONS
      | Some ign \<Rightarrow>
          (let remaining_options = filter (\<lambda>option. option \<notin> set ign) COMPARISON_OPTIONS
           in random_choice r remaining_options))"

section \<open>utils.py: sentence segmentation\<close>

definition ALPHABETS :: rx where
  "ALPHABETS = Grp (Ch (In ascii_letters))"

definition PREFIXES :: rx where
  "PREFIXES = Seq (Grp (alts (map Lit [''Mr'', ''St'', ''Mrs'', ''Ms'', ''Dr'']))) (Ch (In ''.''))"

definition SUFFIXES :: rx where
  "SUFFIXES = Grp (alts (map Lit [''Inc'', ''Ltd'', ''Jr'', ''Sr'', ''Co'']))"

definition ws :: rx where
  "ws = Ch (In whitespace_chars)"

definition STARTERS :: rx where
  "STARTERS = Grp (alts
     [Lit ''Mr'', Lit ''Mrs'', Lit ''Ms'', Lit ''Dr'', Lit ''Prof'', Lit ''Capt'', Lit ''Cpt'',
      Lit ''Lt'', Seq (Lit ''He'') ws, Seq (Lit ''She'') ws, Seq (Lit ''It'') ws,
      Seq (Lit ''They'') ws, Seq (Lit ''Their'') ws, Seq (Lit ''Our'') ws, Seq (Lit ''We'') ws,
      Seq (Lit ''But'') ws, Seq (Lit ''However'') ws, Seq (Lit ''That'') ws,
      Seq (Lit ''This'') ws, Lit ''Wherever''])"

definition ACRONYMS :: rx where
  "ACRONYMS =
     Grp (seqs [Ch (In ascii_upper), Ch (In ''.''), Ch (In ascii_upper), Ch (In ''.''),
                Opt (Seq (Ch (In ascii_upper)) (Ch (In ''.'')))])"

definition WEBSITES :: rx where
  "WEBSITES =
     Seq (Ch (In ''.''))
         (Grp (alts (map Lit [''com'', ''net'', ''org'', ''io'', ''gov'', ''edu'', ''me''])))"

definition DIGITS :: rx where
  "DIGITS = Grp (Ch (In ''0123456789''))"

definition MULTIPLE_DOTS :: rx where
  "MULTIPLE_DOTS = Many 2 (In ''.'')"

definition dot :: rx where
  "dot = Ch (In ''.'')"

text \<open>The source also moves a period behind a right double quotation mark, U+201D,
  when the text holds one; that code point is outside the range of the model and the step
  is left out. The other steps follow the source line by line.\<close>

definition extract_sentences :: "string \<Rightarrow> string list" where
  "extract_sentences text0 =
     (let text = '' '' @ text0 @ ''  '';
          text = replace text [CHR 0x0A] '' '';
          text = re_sub PREFIXES (expand [G 1, T ''<prd>'']) text;
          text = re_sub WEBSITES (expand [T ''<prd>'', G 1]) text;
          text = re_sub (seqs [DIGITS, dot, DIGITS]) (expand [G 1, T ''<prd>'', G 2]) text;
          text = re_sub MULTIPLE_DOTS
                   (\<lambda>m g. concat (replicate (length m) ''<prd>'') @ ''<stop>'') text;
          text = (if contains text ''Ph.D'' then replace text ''Ph.D.'' ''Ph<prd>D<prd>''
                  else text);
          text = re_sub (seqs [ws, ALPHABETS, dot, Lit '' ''])
                   (expand [T '' '', G 1, T ''<prd> '']) text;
          text = re_sub (seqs [ACRONYMS, Lit '' '', STARTERS])
                   (expand [G 1, T ''<stop> '', G 2]) text;
          text = re_sub (seqs [ALPHABETS, dot, ALPHABETS, dot, ALPHABETS, dot])
                   (expand [G 1, T ''<prd>'', G 2, T ''<prd>'', G 3, T ''<prd>'']) text;
          text = re_sub (seqs [ALPHABETS, dot, ALPHABETS, dot])
                   (expand [G 1, T ''<prd>'', G 2, T ''<prd>'']) text;
          text = re_sub (seqs [Lit '' '', SUFFIXES, dot, Lit '' '', STARTERS])
                   (expand [T '' '', G 1, T ''<stop> '', G 2]) text;
          text = re_sub (seqs [Lit '' '', SUFFIXES, dot]) (expand [T '' '', G 1, T ''<prd>'']) text;
          text = re_sub (seqs [Lit '' '', ALPHABETS, dot]) (expand [T '' '', G 1, T ''<prd>'']) text;
          text = (if contains text [CHR 0x22] then replace text [CHR ''.'', CHR 0x22] [CHR 0x22, CHR ''.'']
                  else text);
          text = (if contains text ''!'' then replace text [CHR ''!'', CHR 0x22] [CHR 0x22, CHR ''!'']
                  else text);
          text = (if contains text ''?'' then replace text [CHR ''?'', CHR 0x22] [CHR 0x22, CHR ''?'']
                  else text);
          text = replace text ''.'' ''.<stop>'';
          text = replace text ''?'' ''?<stop>'';
          text = replace text ''!'' ''!<stop>'';
          text = replace text ''<prd>'' ''.'';
          sentences = split_at ''<stop>'' 0 [] text;
          sentences = map strip sentences
      in if sentences \<noteq> [] \<and> last sentences = [] then butlast sentences else sentences)"

section \<open>utils.py: postscript and highlighted sections\<close>

text \<open>The patterns \<open>\s*p\.\s?p\.\s?s.*$\<close> and \<open>\s*p\.\s?s\..*$\<close>; \<open>.\<close> is any character
  but the newline, and \<open>$\<close> is read under \<open>re.MULTILINE\<close>, the flag of the call.\<close>

definition any_but_newline :: cset where
  "any_but_newline = NotIn [CHR 0x0A]"

text \<open>What \<open>\s?\<close> matches: nothing, or one whitespace character.\<close>

fun optional_space :: "string \<Rightarrow> bool" where
  "optional_space [] = True"
| "optional_space [w] = is_space w"
| "optional_space (w # v # va) = False"

text \<open>The end of both patterns, \<open>.*$\<close>.\<close>

definition rest_of_line :: "rx \<Rightarrow> rx" where
  "rest_of_line dollar = Seq (Many 0 any_but_newline) dollar"

definition pps_pattern :: "rx \<Rightarrow> rx" where
  "pps_pattern dollar =
     seqs [Many 0 (In whitespace_chars), Lit ''p'', Lit ''.'', Opt ws, Lit ''p'', Lit ''.'',
           Opt ws, Lit ''s'', rest_of_line dollar]"

definition ps_pattern :: "rx \<Rightarrow> rx" where
  "ps_pattern dollar =
     seqs [Many 0 (In whitespace_chars), Lit ''p'', Lit ''.'', Opt ws, Lit ''s'', Lit ''.'',
           rest_of_line dollar]"

text \<open>\<open>check_postscript\<close> for the two markers that \<open>PostscriptChecker\<close> samples. For any
  other marker the source compiles the marker's own text as a pattern; that case is left
  out, with the result \<open>None\<close>.\<close>

definition check_postscript :: "string \<Rightarrow> string \<Rightarrow> bool option" where
  "check_postscript arg_value postscript_marker =
     (let v = lower arg_value
      in if postscript_marker = ''P.P.S.'' then Some (findall (pps_pattern Eol) v \<noteq> [])
         else if postscript_marker = ''P.S.'' then Some (findall (ps_pattern Eol) v \<noteq> [])
         else None)"


text \<open>\<open>highlight[k:-k]\<close> for \<open>k\<close> = 1, 2.\<close>

definition slice_inner :: "nat \<Rightarrow> string \<Rightarrow> string" where
  "slice_inner k s = take (length s - k - k) (drop k s)"

definition any_char :: cset where
  "any_char = NotIn []"

definition count_highlighted_sections :: "string \<Rightarrow> int" where
  "count_highlighted_sections arg_value =
     (let double_highlights = findall (seqs [Lit ''**'', Lazy 0 any_char, Lit ''**'']) arg_value;
          temp_text = foldl (\<lambda>t highlight. replace t highlight []) arg_value double_highlights;
          single_highlights = findall (seqs [Lit ''*'', Lazy 0 any_char, Lit ''*'']) temp_text;
          num_highlights = 0;
          num_highlights = num_highlights
             + int (length (filter (\<lambda>highlight. strip (slice_inner 2 highlight) \<noteq> [])
                              double_highlights));
          num_highlights = num_highlights
             + int (length (filter (\<lambda>highlight. strip (slice_inner 1 highlight) \<noteq> [])
                              single_highlights))
      in num_highlights)"

section \<open>checkers.py: the checkers of the claims\<close>

text \<open>\<open>KeywordsPresenceChecker.check_following\<close> with
  \<open>self.arguments = {"list_of_keywords": keywords, "must_include": must_include}\<close>.\<close>

definition KeywordsPresenceChecker_check_following :: "string list \<Rightarrow> bool \<Rightarrow> string \<Rightarrow> bool" where
  "KeywordsPresenceChecker_check_following keywords must_include arg_value =
     (let words = clean_and_split arg_value True;
          keyword_lower = map lower keywords
      in if must_include then list_all (\<lambda>keyword. keyword \<in> set words) keyword_lower
         else list_all (\<lambda>keyword. keyword \<notin> set words) keyword_lower)"

text \<open>\<open>SentenceCountChecker\<close>: \<open>sample_arguments\<close> with its two draws, and
  \<open>check_following\<close> with \<open>self.arguments = {"N": N, "comparison_option": opt}\<close>.\<close>

record count_arguments =
  N :: int
  comparison_option :: ComparisonOption

definition SentenceCountChecker_sample_arguments :: "nat \<Rightarrow> nat \<Rightarrow> py_exception + count_arguments" where
  "SentenceCountChecker_sample_arguments r1 r2 =
     (case sample_comparison_option r1 (Some [Exactly]) of
        Inl e \<Rightarrow> Inl e
      | Inr opt \<Rightarrow>
          (case (case opt of
                   AtLeast \<Rightarrow> random_randint r2 1 8
                 | AtMost \<Rightarrow> random_randint r2 1 4
                 | Exactly \<Rightarrow> random_randint r2 1 5) of
             Inl e \<Rightarrow> Inl e
           | Inr n_sentences \<Rightarrow> Inr \<lparr>N = n_sentences, comparison_option = opt\<rparr>))"

definition SentenceCountChecker_check_following :: "count_arguments \<Rightarrow> string \<Rightarrow> bool" where
  "SentenceCountChecker_check_following args arg_value =
     (let sentences = extract_sentences arg_value
      in compare_count (int (length sentences)) (N args) (comparison_option args))"

definition PostscriptChecker_check_following :: "string \<Rightarrow> string \<Rightarrow> bool option" where
  "PostscriptChecker_check_following marker arg_value = check_postscript arg_value marker"

definition HighlightedSectionsCountChecker_check_following :: "count_arguments \<Rightarrow> string \<Rightarrow> bool" where
  "HighlightedSectionsCountChecker_check_following args arg_value =
     (let num_highlights = count_highlighted_sections arg_value
      in compare_count num_highlights (N args) (comparison_option args))"

section \<open>The standard library's parsers\<close>

text \<open>
  \<open>json.loads\<close> is CPython library code. It is modelled by a recogniser of the texts it
  accepts, reading the text once from left to right: the value it builds is not used by
  the checker, and the model returns none. The accepted texts are those of
  \<open>json.decoder\<close> and \<open>json.scanner\<close>: whitespace is space, tab, newline and carriage
  return; besides the JSON grammar the literals \<open>NaN\<close>, \<open>Infinity\<close> and \<open>-Infinity\<close> are
  values; a string holds no character below U+0020 and its escapes are
  \<open>\" \\ \/ \b \f \n \r \t\<close> and \<open>\u\<close> with four hexadecimal digits. A text that is not
  accepted raises \<open>JSONDecodeError\<close>, a subclass of \<open>ValueError\<close>. Entering an array or
  an object is a recursive call of the scanner, and CPython raises \<open>RecursionError\<close> when
  the nesting passes the depth the interpreter has left; that depth is the parameter
  \<open>limit\<close>.
\<close>

definition json_whitespace :: string where
  "json_whitespace = [CHR '' '', CHR 0x09, CHR 0x0A, CHR 0x0D]"

definition digits :: string where
  "digits = ''0123456789''"

definition hex_digits :: string where
  "hex_digits = ''0123456789abcdefABCDEF''"

definition simple_escapes :: string where
  "simple_escapes = [CHR 0x22, CHR 0x5C, CHR ''/'', CHR ''b'', CHR ''f'', CHR ''n'', CHR ''r'', CHR ''t'']"

datatype container = InArray | InObject

text \<open>Where the scanner stands: before a value, behind \<open>[\<close> or \<open>{\<close>, before a key,
  before the colon, behind a complete value, inside a string (\<open>True\<close> for a key), behind a
  backslash, inside \<open>\u\<close> with some digits to come, inside a literal with some characters
  to come, or inside a number.\<close>

datatype jstate =
    SValue | SArrayStart | SObjectStart | SKey | SColon | SAfter
  | SString bool | SEscape bool | SHex nat bool | SLiteral string
  | SMinus | SZero | SInt | SDot | SFrac | SExp | SExpSign | SExpDigits

type_synonym jconfig = "jstate \<times> container list"

definition enter :: "nat \<Rightarrow> jstate \<Rightarrow> container \<Rightarrow> container list \<Rightarrow> py_exception + jconfig" where
  "enter limit st k stk = (if limit \<le> length stk then Inl RecursionError else Inr (st, k # stk))"

definition value_start :: "nat \<Rightarrow> container list \<Rightarrow> char \<Rightarrow> py_exception + jconfig" where
  "value_start limit stk c =
     (if c = CHR 0x22 then Inr (SString False, stk)
      else if c = CHR ''{'' then enter limit SObjectStart InObject stk
      else if c = CHR ''['' then enter limit SArrayStart InArray stk
      else if c = CHR ''n'' then Inr (SLiteral ''ull'', stk)
      else if c = CHR ''t'' then Inr (SLiteral ''rue'', stk)
      else if c = CHR ''f'' then Inr (SLiteral ''alse'', stk)
      else if c = CHR ''-'' then Inr (SMinus, stk)
      else if c = CHR ''0'' then Inr (SZero, stk)
      else if c \<in> set digits then Inr (SInt, stk)
      else if c = CHR ''N'' then Inr (SLiteral ''aN'', stk)
      else if c = CHR ''I'' then Inr (SLiteral ''nfinity'', stk)
      else Inl ValueError)"

definition after_value :: "container list \<Rightarrow> char \<Rightarrow> py_exception + jconfig" where
  "after_value stk c =
     (if c \<in> set json_whitespace then Inr (SAfter, stk)
      else if c = CHR '','' then
        (case stk of [] \<Rightarrow> Inl ValueError
         | InArray # r \<Rightarrow> Inr (SValue, stk)
         | InObject # r \<Rightarrow> Inr (SKey, stk))
      else if c = CHR '']'' then
        (case stk of InArray # r \<Rightarrow> Inr (SAfter, r) | _ \<Rightarrow> Inl ValueError)
      else if c = CHR ''}'' then
        (case stk of InObject # r \<Rightarrow> Inr (SAfter, r) | _ \<Rightarrow> Inl ValueError)
      else Inl ValueError)"

fun step :: "nat \<Rightarrow> jconfig \<Rightarrow> char \<Rightarrow> py_exception + jconfig" where
  "step limit (SValue, stk) c =
     (if c \<in> set json_whitespace then Inr (SValue, stk) else value_start limit stk c)"
| "step limit (SArrayStart, stk) c =
     (if c \<in> set json_whitespace then Inr (SArrayStart, stk)
      else if c = CHR '']'' then Inr (SAfter, tl stk)
      else value_start limit stk c)"
| "step limit (SObjectStart, stk) c =
     (if c \<in> set json_whitespace then Inr (SObjectStart, stk)
      else if c = CHR ''}'' then Inr (SAfter, tl stk)
      else if c = CHR 0x22 then Inr (SString True, stk)
      else Inl ValueError)"
| "step limit (SKey, stk) c =
     (if c \<in> set json_whitespace then Inr (SKey, stk)
      else if c = CHR 0x22 then Inr (SString True, stk)
      else Inl ValueError)"
| "step limit (SColon, stk) c =
     (if c \<in> set json_whitespace then Inr (SColon, stk)
      else if c = CHR '':'' then Inr (SValue, stk)
      else Inl ValueError)"
| "step limit (SAfter, stk) c = after_value stk c"
| "step limit (SString key, stk) c =
     (if c = CHR 0x22 then Inr (if key then SColon else SAfter, stk)
      else if c = CHR 0x5C then Inr (SEscape key, stk)
      else if (of_char c :: nat) < 32 then Inl ValueError
      else Inr (SString key, stk))"
| "step limit (SEscape key, stk) c =
     (if c \<in> set simple_escapes then Inr (SString key, stk)
      else if c = CHR ''u'' then Inr (SHex 4 key, stk)
      else Inl ValueError)"
| "step limit (SHex n key, stk) c =
     (if c \<in> set hex_digits then Inr (if n \<le> 1 then SString key else SHex (n - 1) key, stk)
      else Inl ValueError)"
| "step limit (SLiteral l, stk) c =
     (case l of
        [] \<Rightarrow> Inl ValueError
      | x # r \<Rightarrow> if c = x then Inr (if r = [] then SAfter else SLiteral r, stk)
                 else Inl ValueError)"
| "step limit (SMinus, stk) c =
     (if c = CHR ''0'' then Inr (SZero, stk)
      else if c \<in> set digits then Inr (SInt, stk)
      else if c = CHR ''I'' then Inr (SLiteral ''nfinity'', stk)
      else Inl ValueError)"
| "step limit (SZero, stk) c =
     (if c = CHR ''.'' then Inr (SDot, stk)
      else if c = CHR ''e'' \<or> c = CHR ''E'' then Inr (SExp, stk)
      else after_value stk c)"
| "step limit (SInt, stk) c =
     (if c \<in> set digits then Inr (SInt, stk)
      else if c = CHR ''.'' then Inr (SDot, stk)
      else if c = CHR ''e'' \<or> c = CHR ''E'' then Inr (SExp, stk)
      else after_value stk c)"
| "step limit (SDot, stk) c = (if c \<in> set digits then Inr (SFrac, stk) else Inl ValueError)"
| "step limit (SFrac, stk) c =
     (if c \<in> set digits then Inr (SFrac, stk)
      else if c = CHR ''e'' \<or> c = CHR ''E'' then Inr (SExp, stk)
      else after_value stk c)"
| "step limit (SExp, stk) c =
     (if c = CHR ''+'' \<or> c = CHR ''-'' then Inr (SExpSign, stk)
      else if c \<in> set digits then Inr (SExpDigits, stk)
      else Inl ValueError)"
| "step limit (SExpSign, stk) c =
     (if c \<in> set digits then Inr (SExpDigits, stk) else Inl ValueError)"
| "step limit (SExpDigits, stk) c =
     (if c \<in> set digits then Inr (SExpDigits, stk) else after_value stk c)"

fun run :: "nat \<Rightarrow> jconfig \<Rightarrow> string \<Rightarrow> py_exception + jconfig" where
  "run limit cfg [] = Inr cfg"
| "run limit cfg (c # cs) =
     (case step limit cfg c of Inl e \<Rightarrow> Inl e | Inr cfg' \<Rightarrow> run limit cfg' cs)"

text \<open>The text is a value when the scan ends outside every container, behind a complete
  value or inside a number that may end there.\<close>

fun complete :: "jconfig \<Rightarrow> bool" where
  "complete (st, stk) = (stk = [] \<and> st \<in> {SAfter, SZero, SInt, SFrac, SExpDigits})"

text \<open>The literals the scanner is ever inside of are made of letters.\<close>

fun literal_of_letters :: "jconfig \<Rightarrow> bool" where
  "literal_of_letters (SLiteral l, stk) = (set l \<subseteq> set ascii_letters)"
| "literal_of_letters (st, stk) = True"

definition json_loads :: "nat \<Rightarrow> string \<Rightarrow> py_exception + unit" where
  "json_loads limit s =
     (case run limit (SValue, []) s of
        Inl e \<Rightarrow> Inl e
      | Inr cfg \<Rightarrow> if complete cfg then Inr () else Inl ValueError)"

text \<open>
  \<open>ast.literal_eval\<close> reads Python's own literal syntax, which is not modelled: the parser
  is a parameter of the list checker. What the checker asks of its result is whether it is
  a list and whether each element is a string.
\<close>

datatype pyobj = PyStr string | PyList "pyobj list" | PyOther

section \<open>checkers.py: JsonFormatChecker and PythonListFormatChecker\<close>

text \<open>\<open>s.removeprefix(p)\<close> and \<open>s.removesuffix(p)\<close>.\<close>

definition removeprefix :: "string \<Rightarrow> string \<Rightarrow> string" where
  "removeprefix s p = (if startswith s p then drop (length p) s else s)"

definition removesuffix :: "string \<Rightarrow> string \<Rightarrow> string" where
  "removesuffix s p = (if p \<noteq> [] \<and> endswith s p then take (length s - length p) s else s)"

definition json_fence_stripped :: "string \<Rightarrow> string" where
  "json_fence_stripped arg_value =
     strip (removesuffix
       (removeprefix (removeprefix (removeprefix (removeprefix (strip arg_value)
          ''```json'') ''```Json'') ''```JSON'') ''```'') ''```'')"

text \<open>\<open>JsonFormatChecker.check_following\<close>: \<open>except ValueError\<close> gives \<open>False\<close>; any other
  exception of the parser leaves the method.\<close>

definition JsonFormatChecker_check_following :: "nat \<Rightarrow> string \<Rightarrow> py_exception + bool" where
  "JsonFormatChecker_check_following limit arg_value =
     (let v = json_fence_stripped arg_value
      in case json_loads limit v of
           Inl ValueError \<Rightarrow> Inr False
         | Inl e \<Rightarrow> Inl e
         | Inr parsed \<Rightarrow> Inr True)"

definition JsonFormatChecker_build_description :: string where
  "JsonFormatChecker_build_description =
     ''The argument value must be a valid JSON object. The JSON must be syntactically correct and parseable.''"

text \<open>\<open>PythonListFormatChecker.check_following\<close>, with \<open>ast.literal_eval\<close> as the parameter
  \<open>literal_eval\<close>: \<open>except (ValueError, SyntaxError)\<close> gives \<open>False\<close>; any other exception
  of the parser leaves the method.\<close>

definition PythonListFormatChecker_check_following ::
  "(string \<Rightarrow> py_exception + pyobj) \<Rightarrow> string \<Rightarrow> py_exception + bool" where
  "PythonListFormatChecker_check_following literal_eval arg_value =
     (let v = strip arg_value;
          v = (if startswith v ''```python'' then strip (drop (length ''```python'') v)
               else if startswith v ''```Python'' then strip (drop (length ''```Python'') v)
               else if startswith v ''```PYTHON'' then strip (drop (length ''```PYTHON'') v)
               else if startswith v ''```'' then strip (drop (length ''```'') v)
               else v);
          v = (if endswith v ''```'' then strip (take (length v - 3) v) else v)
      in case literal_eval v of
           Inl ValueError \<Rightarrow> Inr False
         | Inl SyntaxError \<Rightarrow> Inr False
         | Inl e \<Rightarrow> Inl e
         | Inr (PyList items) \<Rightarrow> Inr (list_all (\<lambda>item. case item of PyStr x \<Rightarrow> True | _ \<Rightarrow> False) items)
         | Inr parsed \<Rightarrow> Inr False)"

section \<open>Properties\<close>

subsection \<open>Strings\<close>

lemma contains_single: "contains s [c] = (c \<in> set s)"
  by (induction s) auto

subsection \<open>Highlighted sections\<close>

text \<open>
  C1. On \<open>*a*b* *c*\<close> the counter finds no double-delimited span and pairs the asterisks
  left to right into the single-delimited spans \<open>*a*\<close> and \<open>* *\<close>; the first has content,
  the second holds only whitespace and is not counted, so the count is exactly 1.
\<close>

theorem C1_highlights_greedy_pairing:
  "findall (seqs [Lit ''**'', Lazy 0 any_char, Lit ''**'']) ''*a*b* *c*'' = []
   \<and> findall (seqs [Lit ''*'', Lazy 0 any_char, Lit ''*'']) ''*a*b* *c*'' = [''*a*'', ''* *'']
   \<and> strip (slice_inner 1 ''*a*'') = ''a''
   \<and> strip (slice_inner 1 ''* *'') = []
   \<and> count_highlighted_sections ''*a*b* *c*'' = 1"
proof -
  have "findall (seqs [Lit ''**'', Lazy 0 any_char, Lit ''**'']) ''*a*b* *c*'' = []"
    by code_simp
  moreover have "findall (seqs [Lit ''*'', Lazy 0 any_char, Lit ''*'']) ''*a*b* *c*''
                   = [''*a*'', ''* *'']"
    by code_simp
  moreover have "strip (slice_inner 1 ''*a*'') = ''a''"
    by code_simp
  moreover have "strip (slice_inner 1 ''* *'') = []"
    by code_simp
  moreover have "count_highlighted_sections ''*a*b* *c*'' = 1"
    by code_simp
  ultimately show ?thesis by blast
qed

subsection \<open>Sentence count\<close>

text \<open>
  C2. With \<open>N = 2\<close> and "at least", the sentence-count check accepts
  \<open>Hello. World. Again.\<close>, which the segmenter cuts into three sentences, and rejects
  \<open>Hello.\<close>, which gives exactly one sentence once the empty fragment behind the final
  period is dropped.
\<close>

theorem C2_sentence_count_scenario:
  "SentenceCountChecker_check_following \<lparr>N = 2, comparison_option = AtLeast\<rparr>
     ''Hello. World. Again.''
   \<and> \<not> SentenceCountChecker_check_following \<lparr>N = 2, comparison_option = AtLeast\<rparr> ''Hello.''
   \<and> extract_sentences ''Hello. World. Again.'' = [''Hello.'', ''World.'', ''Again.'']
   \<and> extract_sentences ''Hello.'' = [''Hello.'']"
proof -
  have "SentenceCountChecker_check_following \<lparr>N = 2, comparison_option = AtLeast\<rparr>
          ''Hello. World. Again.''"
    by code_simp
  moreover have "\<not> SentenceCountChecker_check_following
                     \<lparr>N = 2, comparison_option = AtLeast\<rparr> ''Hello.''"
    by code_simp
  moreover have "extract_sentences ''Hello. World. Again.'' = [''Hello.'', ''World.'', ''Again.'']"
    by code_simp
  moreover have "extract_sentences ''Hello.'' = [''Hello.'']"
    by code_simp
  ultimately show ?thesis by blast
qed

subsection \<open>Fixed spacing between words\<close>

lemma spaces_single_word:
  assumes "CHR '' '' \<notin> set s" and "s = strip s"
  shows "SpacesInBetweenChecker_check_following n s = Inr True"
  using assms by (simp add: SpacesInBetweenChecker_check_following_def contains_single Let_def)

text \<open>
  C3. With \<open>N = 5\<close>: \<open>a\<close>, five spaces, \<open>b\<close> passes; with four spaces it fails; with six
  spaces it fails; and a string that holds no space character and equals its own
  whitespace-trim passes for every \<open>N\<close>.
\<close>

theorem C3_fixed_spacing:
  "SpacesInBetweenChecker_check_following 5 ''a     b'' = Inr True
   \<and> SpacesInBetweenChecker_check_following 5 ''a    b'' = Inr False
   \<and> SpacesInBetweenChecker_check_following 5 ''a      b'' = Inr False
   \<and> (\<forall>n s. CHR '' '' \<notin> set s \<and> s = strip s
         \<longrightarrow> SpacesInBetweenChecker_check_following n s = Inr True)"
proof -
  have "SpacesInBetweenChecker_check_following 5 ''a     b'' = Inr True"
    by code_simp
  moreover have "SpacesInBetweenChecker_check_following 5 ''a    b'' = Inr False"
    by code_simp
  moreover have "SpacesInBetweenChecker_check_following 5 ''a      b'' = Inr False"
    by code_simp
  ultimately show ?thesis
    using spaces_single_word by blast
qed

theorem C3_fixed_spacing_witness:
  "CHR '' '' \<notin> set ''word'' \<and> ''word'' = strip ''word''
   \<and> SpacesInBetweenChecker_check_following 7 ''word'' = Inr True
   \<and> SpacesInBetweenChecker_check_following (- 3) ''word'' = Inr True"
proof -
  have h: "CHR '' '' \<notin> set ''word'' \<and> ''word'' = strip ''word''"
    by (simp add: strip_def is_space_def whitespace_chars_def)
  with C3_fixed_spacing show ?thesis by blast
qed

subsection \<open>Sampling of the sentence-count parameters\<close>

text \<open>
  C8. Whatever the two draws are, sampling the parameters of the sentence-count variant
  succeeds and gives a comparison option that is "at least" or "at most", never "exactly".
\<close>

theorem C8_sentence_count_never_samples_exactly:
  "\<exists>args. SentenceCountChecker_sample_arguments r1 r2 = Inr args
          \<and> comparison_option args \<in> {AtLeast, AtMost}
          \<and> comparison_option args \<noteq> Exactly"
proof -
  have "sample_comparison_option r1 (Some [Exactly]) = random_choice r1 [AtMost, AtLeast]"
    by (simp add: sample_comparison_option_def COMPARISON_OPTIONS_def)
  moreover have "r1 mod Suc (Suc 0) = 0 \<or> r1 mod Suc (Suc 0) = Suc 0"
    by arith
  ultimately have "sample_comparison_option r1 (Some [Exactly]) = Inr AtMost
             \<or> sample_comparison_option r1 (Some [Exactly]) = Inr AtLeast"
    by (auto simp: random_choice_def)
  then show ?thesis
    by (auto simp: SentenceCountChecker_sample_arguments_def random_randint_def)
qed

subsection \<open>Characters by code point\<close>

lemma mem_by_code: "(c \<in> set L) = ((of_char c :: nat) \<in> set (map of_char L))"
  by (auto simp: image_iff)

lemma is_space_iff:
  "is_space c \<longleftrightarrow> (of_char c :: nat) \<in> {9, 10, 11, 12, 13, 28, 29, 30, 31, 32, 133, 160}"
  unfolding is_space_def mem_by_code[of c whitespace_chars] by (simp add: whitespace_chars_def)

lemma punctuation_iff:
  "c \<in> set punctuation \<longleftrightarrow>
     (33 \<le> (of_char c :: nat) \<and> (of_char c :: nat) \<le> 47)
     \<or> (58 \<le> (of_char c :: nat) \<and> (of_char c :: nat) \<le> 64)
     \<or> (91 \<le> (of_char c :: nat) \<and> (of_char c :: nat) \<le> 96)
     \<or> (123 \<le> (of_char c :: nat) \<and> (of_char c :: nat) \<le> 126)"
  unfolding mem_by_code[of c punctuation] by (simp add: punctuation_def) arith

lemma ascii_lowercase_iff:
  "c \<in> set ascii_lowercase \<longleftrightarrow> 97 \<le> (of_char c :: nat) \<and> (of_char c :: nat) \<le> 122"
  unfolding mem_by_code[of c ascii_lowercase] by (simp add: ascii_lowercase_def) arith

lemma of_char_lower_char:
  "(of_char (lower_char c) :: nat) =
     (if (65 \<le> (of_char c :: nat) \<and> (of_char c :: nat) \<le> 90)
         \<or> (192 \<le> (of_char c :: nat) \<and> (of_char c :: nat) \<le> 222 \<and> (of_char c :: nat) \<noteq> 215)
      then of_char c + 32 else of_char c)"
  by (auto simp: lower_char_def Let_def)

lemma lower_char_keeps_space: "is_space (lower_char c) = is_space c"
  unfolding is_space_iff of_char_lower_char by auto

lemma lower_char_keeps_punctuation: "(lower_char c \<in> set punctuation) = (c \<in> set punctuation)"
  unfolding punctuation_iff of_char_lower_char by auto

lemma lower_char_lowercase: "c \<in> set ascii_lowercase \<Longrightarrow> lower_char c = c"
  unfolding ascii_lowercase_iff by (auto simp: lower_char_def Let_def)

lemma lowercase_not_space: "c \<in> set ascii_lowercase \<Longrightarrow> \<not> is_space c"
  unfolding ascii_lowercase_iff is_space_iff by auto

lemma lowercase_not_punctuation: "c \<in> set ascii_lowercase \<Longrightarrow> c \<notin> set punctuation"
  unfolding ascii_lowercase_iff punctuation_iff by auto

lemma lower_char_blank: "lower_char CHR '' '' = CHR '' ''"
  by (simp add: lower_char_def)

lemma blank_is_space: "is_space CHR '' ''"
  by (simp add: is_space_def whitespace_chars_def)

lemma lower_lowercase: "set k \<subseteq> set ascii_lowercase \<Longrightarrow> lower k = k"
  by (induction k) (auto simp: lower_def lower_char_lowercase)

subsection \<open>Splitting at whitespace\<close>

lemma split_run_word: "\<forall>c \<in> set w. \<not> is_space c \<Longrightarrow> split_run cur (w @ r) = split_run (cur @ w) r"
  by (induction w arbitrary: cur) auto

lemma split_run_blanks: "\<forall>c \<in> set sp. is_space c \<Longrightarrow> split_run [] (sp @ r) = split_run [] r"
  by (induction sp) auto

lemma split_run_blanks_end:
  "\<forall>c \<in> set sp. is_space c \<Longrightarrow> cur \<noteq> [] \<Longrightarrow> split_run cur sp = [cur]"
  using split_run_blanks[of _ "[]"] by (cases sp) auto

lemma split_one_word:
  assumes "w \<noteq> []" "\<forall>c \<in> set w. \<not> is_space c"
    and "\<forall>c \<in> set sp1. is_space c" "\<forall>c \<in> set sp2. is_space c"
  shows "split (sp1 @ w @ sp2) = [w]"
proof -
  have "split (sp1 @ w @ sp2) = split_run [] (w @ sp2)"
    using assms(3) by (simp add: split_def split_run_blanks)
  also have "\<dots> = split_run w sp2"
    using assms(2) by (simp add: split_run_word)
  also have "\<dots> = [w]"
    using assms(1,4) by (simp add: split_run_blanks_end)
  finally show ?thesis .
qed

subsection \<open>Keyword presence\<close>

lemma translate_punctuation_append:
  "translate_punctuation (a @ b) = translate_punctuation a @ translate_punctuation b"
  by (simp add: translate_punctuation_def)

lemma translate_punctuation_none:
  "\<forall>c \<in> set s. c \<notin> set punctuation \<Longrightarrow> translate_punctuation s = s"
  by (induction s) (auto simp: translate_punctuation_def)

lemma translate_punctuation_all:
  "set p \<subseteq> set punctuation \<Longrightarrow> translate_punctuation p = replicate (length p) CHR '' ''"
  by (induction p) (auto simp: translate_punctuation_def)

lemma lower_translate_punctuation:
  "lower (translate_punctuation s) = translate_punctuation (lower s)"
  by (induction s)
     (auto simp: lower_def translate_punctuation_def lower_char_keeps_punctuation lower_char_blank)

lemma keyword_alone:
  "KeywordsPresenceChecker_check_following [k] True v
     = (lower k \<in> set (split (lower (translate_punctuation v))))"
  by (simp add: KeywordsPresenceChecker_check_following_def clean_and_split_def Let_def)

lemma keyword_with_suffix:
  assumes k: "set k \<subseteq> set ascii_lowercase"
    and suf: "suf \<noteq> []" "\<forall>c \<in> set suf. \<not> is_space c \<and> c \<notin> set punctuation"
  shows "\<not> KeywordsPresenceChecker_check_following [k] True (k @ suf)"
proof -
  have "translate_punctuation (k @ suf) = k @ suf"
    using k suf by (intro translate_punctuation_none) (auto simp: lowercase_not_punctuation)
  moreover have "lower (k @ suf) = k @ lower suf"
    using k by (simp add: lower_def lower_lowercase[unfolded lower_def])
  moreover have "\<forall>c \<in> set (k @ lower suf). \<not> is_space c"
    using k suf by (auto simp: lower_def lower_char_keeps_space lowercase_not_space)
  then have "split ([] @ (k @ lower suf) @ []) = [k @ lower suf]"
    using suf(1) by (intro split_one_word) (auto simp: lower_def)
  moreover have "k \<noteq> k @ lower suf"
    using suf(1) by (simp add: lower_def)
  ultimately show ?thesis
    using k by (simp add: keyword_alone lower_lowercase)
qed

lemma keyword_in_punctuation:
  assumes k: "k \<noteq> []" "set k \<subseteq> set ascii_lowercase"
    and p: "set p \<subseteq> set punctuation" and q: "set q \<subseteq> set punctuation"
  shows "KeywordsPresenceChecker_check_following [k] True (p @ k @ q)"
proof -
  let ?b = "\<lambda>n. replicate n CHR '' ''"
  have "translate_punctuation (p @ k @ q) = ?b (length p) @ k @ ?b (length q)"
    using k p q
    by (simp add: translate_punctuation_append translate_punctuation_all
        translate_punctuation_none lowercase_not_punctuation subset_iff)
  moreover have "lower (?b (length p) @ k @ ?b (length q)) = ?b (length p) @ k @ ?b (length q)"
    using k(2) by (simp add: lower_def lower_lowercase[unfolded lower_def] lower_char_blank)
  moreover have "split (?b (length p) @ k @ ?b (length q)) = [k]"
    using k by (intro split_one_word) (auto simp: lowercase_not_space blank_is_space)
  ultimately show ?thesis
    using k by (simp add: keyword_alone lower_lowercase)
qed

lemma keyword_case_variant:
  assumes k: "k \<noteq> []" "set k \<subseteq> set ascii_lowercase" and v: "lower v = k"
  shows "KeywordsPresenceChecker_check_following [k] True v"
proof -
  have "lower (translate_punctuation v) = k"
    using k v by (simp add: lower_translate_punctuation translate_punctuation_none
        lowercase_not_punctuation subset_iff)
  moreover have "split ([] @ k @ []) = [k]"
    using k by (intro split_one_word) (auto simp: lowercase_not_space)
  ultimately show ?thesis
    using k by (simp add: keyword_alone lower_lowercase)
qed

text \<open>
  C4, as the code has it. For a keyword \<open>k\<close> of one or more letters \<open>a\<close>-\<open>z\<close>, the
  presence check with \<open>must_include\<close> true and the keyword set \<open>{k}\<close> is false on \<open>k\<close>
  followed by any non-empty suffix of characters that are neither whitespace nor
  punctuation; it is true on \<open>k\<close> alone, on \<open>k\<close> between any two runs of punctuation
  characters, and on every string whose lower case is \<open>k\<close>.
\<close>

theorem C4_keyword_whole_word:
  assumes "k \<noteq> []" and "set k \<subseteq> set ascii_lowercase"
  shows "(\<forall>suf. suf \<noteq> [] \<and> (\<forall>c \<in> set suf. \<not> is_space c \<and> c \<notin> set punctuation)
            \<longrightarrow> \<not> KeywordsPresenceChecker_check_following [k] True (k @ suf))
         \<and> KeywordsPresenceChecker_check_following [k] True k
         \<and> (\<forall>p q. set p \<subseteq> set punctuation \<and> set q \<subseteq> set punctuation
              \<longrightarrow> KeywordsPresenceChecker_check_following [k] True (p @ k @ q))
         \<and> (\<forall>v. lower v = k \<longrightarrow> KeywordsPresenceChecker_check_following [k] True v)"
  using assms keyword_with_suffix keyword_in_punctuation[of k "[]" "[]"] keyword_in_punctuation
    keyword_case_variant by auto

theorem C4_keyword_whole_word_witness:
  "\<not> KeywordsPresenceChecker_check_following [''apple''] True ''applepie''
   \<and> KeywordsPresenceChecker_check_following [''apple''] True ''apple''
   \<and> KeywordsPresenceChecker_check_following [''apple''] True ''(apple).''
   \<and> KeywordsPresenceChecker_check_following [''apple''] True ''ApPLE''"
proof -
  have k: "''apple'' \<noteq> []" "set ''apple'' \<subseteq> set ascii_lowercase"
    by (simp_all add: ascii_lowercase_def)
  have suf: "''pie'' \<noteq> [] \<and> (\<forall>c \<in> set ''pie''. \<not> is_space c \<and> c \<notin> set punctuation)"
    by (simp add: is_space_def whitespace_chars_def punctuation_def)
  have p: "set ''('' \<subseteq> set punctuation \<and> set '').'' \<subseteq> set punctuation"
    by (simp add: punctuation_def)
  have v: "lower ''ApPLE'' = ''apple''"
    by code_simp
  from C4_keyword_whole_word[OF k] suf p v
  have "\<not> KeywordsPresenceChecker_check_following [''apple''] True (''apple'' @ ''pie'')"
    and "KeywordsPresenceChecker_check_following [''apple''] True ''apple''"
    and "KeywordsPresenceChecker_check_following [''apple''] True (''('' @ ''apple'' @ '').'')"
    and "KeywordsPresenceChecker_check_following [''apple''] True ''ApPLE''"
    by blast+
  then show ?thesis by simp
qed

text \<open>
  C4 as stated asks only that the suffix hold no space character and no punctuation. A
  tab is neither, and it separates words: on \<open>apple\<close>, a tab, \<open>pie\<close> the check for
  \<open>apple\<close> is true.
\<close>

theorem C4_counterexample:
  "''apple'' \<noteq> [] \<and> set ''apple'' \<subseteq> set ascii_lowercase
   \<and> [CHR 0x09, CHR ''p'', CHR ''i'', CHR ''e''] \<noteq> []
   \<and> list_all (\<lambda>c. c \<noteq> CHR '' '' \<and> c \<notin> set punctuation) [CHR 0x09, CHR ''p'', CHR ''i'', CHR ''e'']
   \<and> KeywordsPresenceChecker_check_following [''apple''] True
        (''apple'' @ [CHR 0x09, CHR ''p'', CHR ''i'', CHR ''e''])"
proof -
  have "set ''apple'' \<subseteq> set ascii_lowercase"
    by (simp add: ascii_lowercase_def)
  moreover have "list_all (\<lambda>c. c \<noteq> CHR '' '' \<and> c \<notin> set punctuation)
                   [CHR 0x09, CHR ''p'', CHR ''i'', CHR ''e'']"
    by (simp add: punctuation_def)
  moreover have "KeywordsPresenceChecker_check_following [''apple''] True
        (''apple'' @ [CHR 0x09, CHR ''p'', CHR ''i'', CHR ''e''])"
    by code_simp
  ultimately show ?thesis by simp
qed

subsection \<open>Matching\<close>

lemma startswith_iff: "startswith s l \<longleftrightarrow> (\<exists>r. s = l @ r)"
  by (induction s l rule: startswith.induct) auto

lemma matches_Seq:
  "rx_matches (Seq a b) s \<longleftrightarrow> (\<exists>g r. (g, r) \<in> set (rx_match a s) \<and> rx_matches b r)"
  unfolding rx_matches_def by (simp add: split_def) force

lemma matches_Lit_Seq: "rx_matches (Seq (Lit l) b) s \<longleftrightarrow> (\<exists>r. s = l @ r \<and> rx_matches b r)"
  by (auto simp: matches_Seq startswith_iff)

lemma matches_Opt_Seq:
  "rx_matches (Seq (Opt (Ch cs)) b) s
     \<longleftrightarrow> rx_matches b s \<or> (\<exists>c r. s = c # r \<and> cmem cs c \<and> rx_matches b r)"
  by (auto simp: matches_Seq split: list.splits if_splits)

lemma Many_rests:
  "set (rx_match (Many n cs) s)
     = (\<lambda>k. ([], drop k s)) ` {k. n \<le> k \<and> k \<le> length (takeWhile (cmem cs) s)}"
proof -
  have "set (rev [n ..< Suc (length (takeWhile (cmem cs) s))])
          = {k. n \<le> k \<and> k \<le> length (takeWhile (cmem cs) s)}"
    by auto
  then show ?thesis
    by (simp only: rx_match.simps set_map)
qed

lemma matches_Many_Seq:
  "rx_matches (Seq (Many n cs) b) s
     \<longleftrightarrow> (\<exists>k. n \<le> k \<and> k \<le> length (takeWhile (cmem cs) s) \<and> rx_matches b (drop k s))"
  unfolding matches_Seq Many_rests by auto

lemma matches_Eol: "rx_matches Eol s \<longleftrightarrow> s = [] \<or> hd s = CHR 0x0A"
  by (auto simp: rx_matches_def split: list.splits)

lemma matches_rest_of_line: "rx_matches (rest_of_line Eol) s"
proof -
  let ?k = "length (takeWhile (cmem any_but_newline) s)"
  have "drop ?k s = dropWhile (cmem any_but_newline) s"
    by (simp add: dropWhile_eq_drop)
  moreover have "dropWhile (cmem any_but_newline) s = []
                 \<or> hd (dropWhile (cmem any_but_newline) s) = CHR 0x0A"
    using hd_dropWhile[of "cmem any_but_newline" s] by (auto simp: any_but_newline_def)
  ultimately show ?thesis
    unfolding rest_of_line_def matches_Many_Seq matches_Eol by (intro exI[of _ ?k]) auto
qed

lemma findall_nonempty:
  "findall r s \<noteq> [] \<longleftrightarrow> (\<exists>pre t. s = pre @ t \<and> rx_matches r t)"
proof (induction s)
  case Nil
  then show ?case by (auto simp: findall_def rx_matches_def split: list.splits)
next
  case (Cons c cs)
  have "findall r (c # cs) \<noteq> [] \<longleftrightarrow> rx_matches r (c # cs) \<or> findall r cs \<noteq> []"
    by (auto simp: findall_def rx_matches_def Let_def split: list.splits)
  also have "\<dots> \<longleftrightarrow> rx_matches r (c # cs) \<or> (\<exists>pre t. cs = pre @ t \<and> rx_matches r t)"
    using Cons.IH by simp
  also have "\<dots> \<longleftrightarrow> (\<exists>pre t. c # cs = pre @ t \<and> rx_matches r t)"
    by (auto simp: Cons_eq_append_conv)
  finally show ?case .
qed

lemma cmem_ws: "cmem (In whitespace_chars) c = is_space c"
  by (simp add: is_space_def)

subsection \<open>Postscript\<close>

lemma optional_space_iff: "optional_space m \<longleftrightarrow> m = [] \<or> (\<exists>w. m = [w] \<and> is_space w)"
  by (cases m rule: optional_space.cases) auto

lemma matches_gap_Seq:
  "rx_matches (Seq (Opt ws) b) s \<longleftrightarrow> (\<exists>m r. s = m @ r \<and> optional_space m \<and> rx_matches b r)"
  (is "?L = ?R")
proof
  assume ?L
  then consider "rx_matches b s" | c r where "s = c # r" "is_space c" "rx_matches b r"
    unfolding ws_def matches_Opt_Seq cmem_ws by blast
  then show ?R
  proof cases
    case 1
    then have "s = [] @ s \<and> optional_space [] \<and> rx_matches b s" by simp
    then show ?thesis by blast
  next
    case 2
    then have "s = [c] @ r \<and> optional_space [c] \<and> rx_matches b r" by simp
    then show ?thesis by blast
  qed
next
  assume ?R
  then obtain m r where m: "s = m @ r" "optional_space m" "rx_matches b r" by blast
  from m(2) show ?L
  proof (cases m rule: optional_space.cases)
    case 1
    with m show ?thesis unfolding ws_def matches_Opt_Seq by simp
  next
    case (2 w)
    with m show ?thesis unfolding ws_def matches_Opt_Seq cmem_ws by simp
  next
    case (3 w v va)
    with m show ?thesis by simp
  qed
qed

lemma ps_matches:
  "rx_matches (ps_pattern Eol) t \<longleftrightarrow>
     (\<exists>k m post. k \<le> length (takeWhile is_space t) \<and> optional_space m
        \<and> drop k t = ''p.'' @ m @ ''s.'' @ post)"
  (is "?L = ?R")
proof
  assume ?L
  then show ?R
    unfolding ps_pattern_def seqs.simps matches_Many_Seq matches_Lit_Seq matches_gap_Seq
      cmem_ws[abs_def]
    by auto
next
  assume ?R
  then obtain k m post where k: "k \<le> length (takeWhile is_space t)" and m: "optional_space m"
    and t: "drop k t = ''p.'' @ m @ ''s.'' @ post"
    by blast
  have "\<exists>m' r. m @ ''s.'' @ post = m' @ r \<and> optional_space m'
          \<and> (\<exists>ra. r = ''s'' @ ra \<and> (\<exists>rb. ra = ''.'' @ rb \<and> rx_matches (rest_of_line Eol) rb))"
    by (rule exI[of _ m]) (simp add: m matches_rest_of_line)
  then show ?L
    unfolding ps_pattern_def seqs.simps matches_Many_Seq matches_Lit_Seq matches_gap_Seq
      cmem_ws[abs_def]
    by (intro exI[of _ k]) (simp add: k t)
qed

lemma pps_matches:
  "rx_matches (pps_pattern Eol) t \<longleftrightarrow>
     (\<exists>k m n post. k \<le> length (takeWhile is_space t) \<and> optional_space m \<and> optional_space n
        \<and> drop k t = ''p.'' @ m @ ''p.'' @ n @ ''s'' @ post)"
  (is "?L = ?R")
proof
  assume ?L
  then show ?R
    unfolding pps_pattern_def seqs.simps matches_Many_Seq matches_Lit_Seq matches_gap_Seq
      cmem_ws[abs_def]
    by auto
next
  assume ?R
  then obtain k m n post where k: "k \<le> length (takeWhile is_space t)"
    and m: "optional_space m" and n: "optional_space n"
    and t: "drop k t = ''p.'' @ m @ ''p.'' @ n @ ''s'' @ post"
    by blast
  have inner: "\<exists>n' r. n @ ''s'' @ post = n' @ r \<and> optional_space n'
          \<and> (\<exists>ra. r = ''s'' @ ra \<and> rx_matches (rest_of_line Eol) ra)"
    by (rule exI[of _ n]) (simp add: n matches_rest_of_line)
  have "\<exists>m' r. m @ ''p.'' @ n @ ''s'' @ post = m' @ r \<and> optional_space m'
          \<and> (\<exists>ra. r = ''p'' @ ra \<and> (\<exists>rb. ra = ''.'' @ rb
                \<and> (\<exists>n' r. rb = n' @ r \<and> optional_space n'
                      \<and> (\<exists>ra. r = ''s'' @ ra \<and> rx_matches (rest_of_line Eol) ra))))"
    by (rule exI[of _ m]) (use inner in \<open>simp add: m\<close>)
  then show ?L
    unfolding pps_pattern_def seqs.simps matches_Many_Seq matches_Lit_Seq matches_gap_Seq
      cmem_ws[abs_def]
    by (intro exI[of _ k]) (simp add: k t)
qed

lemma marker_anywhere:
  "(\<exists>pre t. s = pre @ t \<and> (\<exists>k. k \<le> f t \<and> P (drop k t))) \<longleftrightarrow> (\<exists>pre t. s = pre @ t \<and> P t)"
  (is "?L = ?R")
proof
  assume ?L
  then obtain pre t k where "s = pre @ t" "P (drop k t)" by blast
  then have "s = (pre @ take k t) @ drop k t \<and> P (drop k t)" by simp
  then show ?R by blast
next
  assume ?R
  then obtain pre t where "s = pre @ t" "0 \<le> f t \<and> P (drop 0 t)" by auto
  then show ?L by blast
qed

lemma ps_findall:
  "findall (ps_pattern Eol) s \<noteq> []
     \<longleftrightarrow> (\<exists>pre m post. optional_space m \<and> s = pre @ ''p.'' @ m @ ''s.'' @ post)"
proof -
  have "findall (ps_pattern Eol) s \<noteq> []
     \<longleftrightarrow> (\<exists>pre t. s = pre @ t \<and> (\<exists>k. k \<le> length (takeWhile is_space t)
              \<and> (\<exists>m post. optional_space m \<and> drop k t = ''p.'' @ m @ ''s.'' @ post)))"
    unfolding findall_nonempty ps_matches by blast
  also have "\<dots> \<longleftrightarrow> (\<exists>pre t. s = pre @ t
              \<and> (\<exists>m post. optional_space m \<and> t = ''p.'' @ m @ ''s.'' @ post))"
    by (rule marker_anywhere)
  also have "\<dots> \<longleftrightarrow> (\<exists>pre m post. optional_space m \<and> s = pre @ ''p.'' @ m @ ''s.'' @ post)"
    by blast
  finally show ?thesis .
qed

lemma pps_findall:
  "findall (pps_pattern Eol) s \<noteq> []
     \<longleftrightarrow> (\<exists>pre m n post. optional_space m \<and> optional_space n
            \<and> s = pre @ ''p.'' @ m @ ''p.'' @ n @ ''s'' @ post)"
proof -
  have "findall (pps_pattern Eol) s \<noteq> []
     \<longleftrightarrow> (\<exists>pre t. s = pre @ t \<and> (\<exists>k. k \<le> length (takeWhile is_space t)
              \<and> (\<exists>m n post. optional_space m \<and> optional_space n
                    \<and> drop k t = ''p.'' @ m @ ''p.'' @ n @ ''s'' @ post)))"
    unfolding findall_nonempty pps_matches by blast
  also have "\<dots> \<longleftrightarrow> (\<exists>pre t. s = pre @ t
              \<and> (\<exists>m n post. optional_space m \<and> optional_space n
                    \<and> t = ''p.'' @ m @ ''p.'' @ n @ ''s'' @ post))"
    by (rule marker_anywhere)
  also have "\<dots> \<longleftrightarrow> (\<exists>pre m n post. optional_space m \<and> optional_space n
            \<and> s = pre @ ''p.'' @ m @ ''p.'' @ n @ ''s'' @ post)"
    by blast
  finally show ?thesis .
qed

text \<open>
  What \<open>check_postscript\<close> computes: it is true exactly when the marker occurs somewhere
  in the lower-cased input. The text the pattern takes behind the marker runs to the end of
  the marker's line, where \<open>$\<close> matches under \<open>re.MULTILINE\<close>, and that always succeeds.
\<close>

lemma check_postscript_marker_anywhere:
  "check_postscript v ''P.S.''
     = Some (\<exists>pre m post. optional_space m \<and> lower v = pre @ ''p.'' @ m @ ''s.'' @ post)
   \<and> check_postscript v ''P.P.S.''
     = Some (\<exists>pre m n post. optional_space m \<and> optional_space n
               \<and> lower v = pre @ ''p.'' @ m @ ''p.'' @ n @ ''s'' @ post)"
  by (simp add: check_postscript_def Let_def ps_findall pps_findall)


subsection \<open>The JSON recogniser\<close>

lemma run_append:
  "run L cfg (s @ t) = (case run L cfg s of Inl e \<Rightarrow> Inl e | Inr cfg' \<Rightarrow> run L cfg' t)"
proof (induction s arbitrary: cfg)
  case Nil
  show ?case by simp
next
  case (Cons c cs)
  show ?case
    by (cases "step L cfg c") (simp_all add: Cons.IH)
qed

lemma json_loads_iff:
  "json_loads L s = Inr () \<longleftrightarrow> (\<exists>cfg. run L (SValue, []) s = Inr cfg \<and> complete cfg)"
  unfolding json_loads_def by (cases "run L (SValue, []) s") simp_all

lemma space_cases:
  "is_space c \<Longrightarrow> c = CHR 0x09 \<or> c = CHR 0x0A \<or> c = CHR 0x0B \<or> c = CHR 0x0C \<or> c = CHR 0x0D
    \<or> c = CHR 0x1C \<or> c = CHR 0x1D \<or> c = CHR 0x1E \<or> c = CHR 0x1F \<or> c = CHR 0x20
    \<or> c = CHR 0x85 \<or> c = CHR 0xA0"
  by (simp add: is_space_def whitespace_chars_def)

lemma space_value_start: "is_space c \<Longrightarrow> value_start L stk c = Inl ValueError"
  by (drule space_cases) (elim disjE; simp add: value_start_def digits_def)

lemma space_after_value:
  "is_space c \<Longrightarrow> after_value stk c
     = (if c \<in> set json_whitespace then Inr (SAfter, stk) else Inl ValueError)"
  by (drule space_cases) (elim disjE; simp add: after_value_def json_whitespace_def)

lemma space_not_token:
  assumes "is_space c"
  shows "c \<notin> set digits" "c \<notin> set hex_digits" "c \<notin> set simple_escapes" "c \<notin> set ascii_letters"
    "c \<noteq> CHR 0x22" "c \<noteq> CHR 0x5C" "c \<noteq> CHR ''.''" "c \<noteq> CHR ''e''" "c \<noteq> CHR ''E''"
    "c \<noteq> CHR ''+''" "c \<noteq> CHR ''-''" "c \<noteq> CHR '':''" "c \<noteq> CHR '']''" "c \<noteq> CHR ''}''"
    "c \<noteq> CHR ''u''" "c \<noteq> CHR ''0''" "c \<noteq> CHR ''I''"
  using space_cases[OF assms]
  by (elim disjE; simp add: digits_def hex_digits_def simple_escapes_def
      ascii_letters_def ascii_upper_def ascii_lowercase_def)+

lemma value_start_letters: "value_start L stk c = Inr cfg' \<Longrightarrow> literal_of_letters cfg'"
  by (clarsimp simp: value_start_def enter_def ascii_letters_def ascii_upper_def
      ascii_lowercase_def split: if_splits)

lemma after_value_letters: "after_value stk c = Inr cfg' \<Longrightarrow> literal_of_letters cfg'"
  by (clarsimp simp: after_value_def split: if_splits list.splits container.splits)

lemma step_literal_of_letters:
  assumes "literal_of_letters cfg" "step L cfg c = Inr cfg'"
  shows "literal_of_letters cfg'"
proof (cases cfg)
  case (Pair st stk)
  show ?thesis
    using assms unfolding Pair
    by (cases st; clarsimp simp: value_start_letters after_value_letters
          split: if_splits list.splits)
       (simp add: ascii_letters_def ascii_upper_def ascii_lowercase_def)
qed

lemma run_literal_of_letters:
  "literal_of_letters cfg \<Longrightarrow> run L cfg s = Inr cfg' \<Longrightarrow> literal_of_letters cfg'"
proof (induction s arbitrary: cfg)
  case Nil
  then show ?case by simp
next
  case (Cons c cs)
  show ?case
  proof (cases "step L cfg c")
    case (Inl e)
    with Cons.prems show ?thesis by simp
  next
    case (Inr cfg2)
    with Cons.prems have "literal_of_letters cfg2" "run L cfg2 cs = Inr cfg'"
      by (simp_all add: step_literal_of_letters)
    then show ?thesis by (rule Cons.IH)
  qed
qed

lemma step_space_complete:
  assumes "is_space c" "literal_of_letters cfg" "step L cfg c = Inr cfg'" "complete cfg'"
  shows "complete cfg"
proof (cases cfg)
  case (Pair st stk)
  note sp = space_value_start[OF assms(1)] space_after_value[OF assms(1)] space_not_token[OF assms(1)]
  show ?thesis
    using assms(2-) unfolding Pair
    by (cases st; clarsimp simp: sp split: if_splits list.splits)
qed

lemma backquote_value_start: "value_start L stk (CHR 0x60) = Inl ValueError"
  by (simp add: value_start_def digits_def)

lemma backquote_after_value: "after_value stk (CHR 0x60) = Inl ValueError"
  by (simp add: after_value_def json_whitespace_def)

lemma backquote_not_token:
  "CHR 0x60 \<notin> set ascii_letters" "CHR 0x60 \<notin> set digits" "CHR 0x60 \<notin> set hex_digits"
  "CHR 0x60 \<notin> set simple_escapes" "CHR 0x60 \<notin> set json_whitespace"
  by (simp_all add: ascii_letters_def ascii_upper_def ascii_lowercase_def digits_def
      hex_digits_def simple_escapes_def json_whitespace_def)

lemma step_backquote_incomplete:
  assumes "literal_of_letters cfg" "step L cfg (CHR 0x60) = Inr cfg'"
  shows "\<not> complete cfg'"
proof (cases cfg)
  case (Pair st stk)
  show ?thesis
    using assms backquote_not_token(1) unfolding Pair
    by (cases st; clarsimp simp: backquote_value_start backquote_after_value backquote_not_token
          split: if_splits list.splits)
qed

lemma json_loads_Nil: "json_loads L [] = Inl ValueError"
  by (simp add: json_loads_def)

lemma json_loads_leading_space:
  assumes "is_space c" "json_loads L (c # s) = Inr ()"
  shows "json_loads L s = Inr ()"
proof (cases "c \<in> set json_whitespace")
  case True
  with assms(2) show ?thesis by (simp add: json_loads_def)
next
  case False
  with assms show ?thesis by (simp add: json_loads_def space_value_start)
qed

lemma json_loads_first: "json_loads L (c # s) = Inr () \<Longrightarrow> c \<noteq> CHR 0x60"
  by (auto simp: json_loads_def backquote_value_start backquote_not_token)

lemma json_loads_snoc:
  "json_loads L (s @ [c]) = Inr ()
     \<longleftrightarrow> (\<exists>cfg cfg'. run L (SValue, []) s = Inr cfg \<and> step L cfg c = Inr cfg' \<and> complete cfg')"
proof (cases "run L (SValue, []) s")
  case (Inl e)
  then show ?thesis by (simp add: json_loads_iff run_append)
next
  case (Inr cfg)
  then show ?thesis
    by (cases "step L cfg c") (auto simp: json_loads_iff run_append simp del: complete.simps)
qed

lemma json_loads_trailing_space:
  assumes "is_space c" "json_loads L (s @ [c]) = Inr ()"
  shows "json_loads L s = Inr ()"
proof -
  from assms(2) obtain cfg cfg' where r: "run L (SValue, []) s = Inr cfg"
    and st: "step L cfg c = Inr cfg'" "complete cfg'"
    unfolding json_loads_snoc by blast
  have "literal_of_letters cfg"
    using run_literal_of_letters[OF _ r] by simp
  with assms(1) have "complete cfg"
    using st by (rule step_space_complete)
  with r show ?thesis
    unfolding json_loads_iff by blast
qed

lemma json_loads_last: "json_loads L (s @ [c]) = Inr () \<Longrightarrow> c \<noteq> CHR 0x60"
proof
  assume a: "json_loads L (s @ [c]) = Inr ()" and c: "c = CHR 0x60"
  from a obtain cfg cfg' where r: "run L (SValue, []) s = Inr cfg"
    and st: "step L cfg c = Inr cfg'" "complete cfg'"
    unfolding json_loads_snoc by blast
  have "literal_of_letters cfg"
    using run_literal_of_letters[OF _ r] by simp
  with st c show False
    using step_backquote_incomplete by blast
qed

subsection \<open>Trimming\<close>

lemma strip_unchanged:
  assumes "s \<noteq> []" "\<not> is_space (hd s)" "\<not> is_space (last s)"
  shows "strip s = s"
proof -
  have "dropWhile is_space s = s"
    using assms(1,2) by (cases s) auto
  moreover have "dropWhile is_space (rev s) = rev s"
    using assms(1,3) by (cases s rule: rev_cases) auto
  ultimately show ?thesis by (simp add: strip_def)
qed

lemma strip_ends:
  assumes "strip s \<noteq> []"
  shows "\<not> is_space (hd (strip s))" and "\<not> is_space (last (strip s))"
proof -
  let ?a = "dropWhile is_space s"
  let ?b = "dropWhile is_space (rev ?a)"
  have b: "?b \<noteq> []" using assms by (simp add: strip_def)
  then have "\<not> is_space (hd ?b)" by (rule hd_dropWhile)
  then show "\<not> is_space (last (strip s))"
    using b by (simp add: strip_def last_rev)
  have a: "?a \<noteq> []"
  proof
    assume e: "?a = []"
    have "?b = []" unfolding e by simp
    with b show False by simp
  qed
  then have na: "\<not> is_space (hd ?a)" by (rule hd_dropWhile)
  have "rev ?a = takeWhile is_space (rev ?a) @ ?b" by simp
  then have "?a = rev ?b @ rev (takeWhile is_space (rev ?a))"
    by (metis rev_append rev_rev_ident)
  then have "hd ?a = hd (rev ?b)"
    using b by (metis hd_append2 rev_is_Nil_conv)
  with na show "\<not> is_space (hd (strip s))"
    by (simp add: strip_def)
qed

lemma strip_Nil: "strip [] = []"
  by (simp add: strip_def)

lemma strip_strip: "strip (strip s) = strip s"
proof (cases "strip s = []")
  case True
  then show ?thesis by (simp add: strip_Nil)
next
  case False
  then show ?thesis by (intro strip_unchanged strip_ends)
qed

lemma dropWhile_all: "\<forall>c \<in> set w. P c \<Longrightarrow> dropWhile P (w @ s) = dropWhile P s"
  by (induction w) auto

lemma strip_spaces_left: "\<forall>c \<in> set w. is_space c \<Longrightarrow> strip (w @ s) = strip s"
  by (simp add: strip_def dropWhile_all)

lemma strip_spaces_right:
  assumes "\<forall>c \<in> set w. is_space c"
  shows "strip (s @ w) = strip s"
proof (induction s)
  case Nil
  have e: "dropWhile is_space w = []" using assms by simp
  show ?case by (simp only: strip_def append_Nil e rev.simps(1) dropWhile.simps(1))
next
  case (Cons c cs)
  show ?case
  proof (cases "is_space c")
    case True
    with Cons show ?thesis by (simp add: strip_def)
  next
    case False
    have "dropWhile is_space (rev w @ rev (c # cs)) = dropWhile is_space (rev (c # cs))"
      using assms by (intro dropWhile_all) simp
    with False show ?thesis by (simp add: strip_def)
  qed
qed

subsection \<open>The JSON checker\<close>

lemma json_loads_dropWhile:
  "json_loads L s = Inr () \<Longrightarrow> json_loads L (dropWhile is_space s) = Inr ()"
  by (induction s) (auto dest: json_loads_leading_space)

lemma json_loads_drop_trailing:
  "json_loads L s = Inr () \<Longrightarrow> json_loads L (rev (dropWhile is_space (rev s))) = Inr ()"
  by (induction s rule: rev_induct) (auto dest: json_loads_trailing_space)

lemma json_loads_strip: "json_loads L s = Inr () \<Longrightarrow> json_loads L (strip s) = Inr ()"
  unfolding strip_def by (intro json_loads_drop_trailing json_loads_dropWhile)

lemma removeprefix_other: "c \<noteq> p \<Longrightarrow> removeprefix (c # r) (p # ps) = c # r"
  by (simp add: removeprefix_def)

lemma removesuffix_fence_other: "c \<noteq> CHR 0x60 \<Longrightarrow> removesuffix (r @ [c]) ''```'' = r @ [c]"
  by (simp add: removesuffix_def endswith_def)

lemma removesuffix_fence: "removesuffix (r @ ''```'') ''```'' = r"
  by (simp add: removesuffix_def endswith_def)

lemma backquote_not_space: "\<not> is_space (CHR 0x60)"
  by (simp add: is_space_def whitespace_chars_def)

lemma json_fence_stripped_plain:
  assumes "json_loads L (strip s) = Inr ()"
  shows "json_fence_stripped s = strip s"
proof -
  from assms have ne: "strip s \<noteq> []"
    by (auto simp: json_loads_Nil)
  then obtain c r where cr: "strip s = c # r"
    by (cases "strip s") auto
  with assms have c: "c \<noteq> CHR 0x60"
    by (auto dest: json_loads_first)
  from ne obtain r' c' where cr': "strip s = r' @ [c']"
    by (cases "strip s" rule: rev_cases) auto
  with assms have c': "c' \<noteq> CHR 0x60"
    by (auto dest: json_loads_last)
  have "removeprefix (removeprefix (removeprefix (removeprefix (strip s)
          ''```json'') ''```Json'') ''```JSON'') ''```'' = strip s"
    unfolding cr using c by (simp add: removeprefix_other)
  moreover have "removesuffix (strip s) ''```'' = strip s"
    unfolding cr' using c' by (rule removesuffix_fence_other)
  ultimately show ?thesis
    by (simp add: json_fence_stripped_def strip_strip)
qed

lemma json_check_accepts:
  assumes "json_loads L s = Inr ()"
  shows "JsonFormatChecker_check_following L s = Inr True"
proof -
  have ok: "json_loads L (strip s) = Inr ()"
    using assms by (rule json_loads_strip)
  then have "json_fence_stripped s = strip s"
    by (rule json_fence_stripped_plain)
  with ok show ?thesis
    by (simp add: JsonFormatChecker_check_following_def)
qed

lemma json_scalars:
  "json_loads L ''123'' = Inr ()" "json_loads L ''null'' = Inr ()"
  "json_loads L [CHR 0x22, CHR ''a'', CHR ''b'', CHR ''c'', CHR 0x22] = Inr ()"
  by (simp_all add: json_loads_def value_start_def digits_def json_whitespace_def)

text \<open>
  C10. The json-validity check accepts every string that \<open>json.loads\<close> parses, whatever
  kind of JSON value it is: the scalars \<open>123\<close>, \<open>null\<close> and the quoted string \<open>"abc"\<close>
  pass as an object does. The rendered description, all the same, asks for a valid JSON
  object.
\<close>

theorem C10_json_check_accepts_any_value:
  "(\<forall>s. json_loads L s = Inr () \<longrightarrow> JsonFormatChecker_check_following L s = Inr True)
   \<and> JsonFormatChecker_check_following L ''123'' = Inr True
   \<and> JsonFormatChecker_check_following L ''null'' = Inr True
   \<and> JsonFormatChecker_check_following L [CHR 0x22, CHR ''a'', CHR ''b'', CHR ''c'', CHR 0x22]
       = Inr True
   \<and> contains JsonFormatChecker_build_description ''must be a valid JSON object''"
proof -
  have "contains JsonFormatChecker_build_description ''must be a valid JSON object''"
    by code_simp
  then show ?thesis
    using json_check_accepts json_scalars by blast
qed

theorem C10_json_check_accepts_any_value_witness:
  "json_loads 1000 ''  [1, 2.5e3, null, true]  '' = Inr ()
   \<and> JsonFormatChecker_check_following 1000 ''  [1, 2.5e3, null, true]  '' = Inr True"
proof -
  have h: "json_loads 1000 ''  [1, 2.5e3, null, true]  '' = Inr ()"
    by code_simp
  with C10_json_check_accepts_any_value[of 1000] show ?thesis
    by blast
qed

lemma json_fence_stripped_fenced:
  assumes tag: "tag \<in> {''json'', ''Json'', ''JSON''}"
    and body: "json_loads L body = Inr ()"
    and w1: "\<forall>c \<in> set w1. is_space c" and w2: "\<forall>c \<in> set w2. is_space c"
  shows "json_fence_stripped (''```'' @ tag @ w1 @ body @ w2 @ ''```'') = strip body"
proof -
  let ?arg = "''```'' @ tag @ w1 @ body @ w2 @ ''```''"
  have "?arg \<noteq> []" "hd ?arg = CHR 0x60" "last ?arg = CHR 0x60"
    by simp_all
  then have s: "strip ?arg = ?arg"
    by (intro strip_unchanged) (simp_all only: backquote_not_space not_False_eq_True)
  from body have "body \<noteq> []"
    by (auto simp: json_loads_Nil)
  then obtain b bs where b: "body = b # bs"
    by (cases body) auto
  with body have "b \<noteq> CHR 0x60"
    by (auto dest: json_loads_first)
  then obtain c r where cr: "w1 @ body = c # r" and c: "c \<noteq> CHR 0x60"
    using b w1 backquote_not_space by (cases w1) auto
  let ?y = "w1 @ body @ w2 @ ''```''"
  have y: "?y = c # (r @ w2 @ ''```'')"
    using cr by (metis append_Cons append_assoc)
  have noop: "removeprefix ?y (CHR 0x60 # ps) = ?y" for ps
    unfolding y using c by (simp add: removeprefix_other)
  have three: "removeprefix (removeprefix (removeprefix ?arg ''```json'') ''```Json'') ''```JSON''
      = ?y"
  proof -
    consider "tag = ''json''" | "tag = ''Json''" | "tag = ''JSON''"
      using tag by blast
    then show ?thesis
    proof cases
      case 1
      have "removeprefix ?arg ''```json'' = ?y"
        unfolding 1 by (simp add: removeprefix_def)
      then show ?thesis
        by (simp only: noop)
    next
      case 2
      have "removeprefix ?arg ''```json'' = ?arg"
        unfolding 2 by (simp add: removeprefix_def)
      moreover have "removeprefix ?arg ''```Json'' = ?y"
        unfolding 2 by (simp add: removeprefix_def)
      ultimately show ?thesis
        by (simp only: noop)
    next
      case 3
      have "removeprefix ?arg ''```json'' = ?arg"
        unfolding 3 by (simp add: removeprefix_def)
      moreover have "removeprefix ?arg ''```Json'' = ?arg"
        unfolding 3 by (simp add: removeprefix_def)
      moreover have "removeprefix ?arg ''```JSON'' = ?y"
        unfolding 3 by (simp add: removeprefix_def)
      ultimately show ?thesis
        by (simp only: noop)
    qed
  qed
  have "removeprefix (removeprefix (removeprefix (removeprefix ?arg
          ''```json'') ''```Json'') ''```JSON'') ''```'' = ?y"
    by (simp only: three noop)
  moreover have "removesuffix ?y ''```'' = w1 @ body @ w2"
    using removesuffix_fence[of "w1 @ body @ w2"] by simp
  moreover have "strip (w1 @ body @ w2) = strip body"
    using w1 w2 by (simp add: strip_spaces_left strip_spaces_right)
  ultimately show ?thesis
    unfolding json_fence_stripped_def s by simp
qed

lemma json_check_fenced:
  assumes "tag \<in> {''json'', ''Json'', ''JSON''}" "json_loads L body = Inr ()"
    and "\<forall>c \<in> set w1. is_space c" "\<forall>c \<in> set w2. is_space c"
  shows "JsonFormatChecker_check_following L (''```'' @ tag @ w1 @ body @ w2 @ ''```'') = Inr True"
  using json_fence_stripped_fenced[OF assms] json_loads_strip[OF assms(2)]
  by (simp add: JsonFormatChecker_check_following_def)

lemma json_check_truncated:
  "0 < L \<Longrightarrow> JsonFormatChecker_check_following L
     [CHR ''{'', CHR 0x22, CHR ''a'', CHR 0x22, CHR '':'', CHR ''1''] = Inr False"
  by (simp add: JsonFormatChecker_check_following_def json_fence_stripped_def strip_def
      is_space_def whitespace_chars_def removeprefix_def removesuffix_def endswith_def
      json_loads_def value_start_def enter_def digits_def json_whitespace_def)

text \<open>
  C5, as the code has it. A text that \<open>json.loads\<close> parses, wrapped in a code fence whose opening tag
  is spelled \<open>json\<close>, \<open>Json\<close> or \<open>JSON\<close>, with any whitespace between the fence
  markers and the text, passes the json-validity check; these three are the spellings the
  method removes. The truncated object \<open>{"a":1\<close> is rejected whenever the parser can
  enter one object.
\<close>

theorem C5_json_fence_listed_casings:
  "(tag \<in> {''json'', ''Json'', ''JSON''} \<and> json_loads L body = Inr ()
      \<and> (\<forall>c \<in> set w1. is_space c) \<and> (\<forall>c \<in> set w2. is_space c)
    \<longrightarrow> JsonFormatChecker_check_following L (''```'' @ tag @ w1 @ body @ w2 @ ''```'') = Inr True)
   \<and> (0 < L \<longrightarrow> JsonFormatChecker_check_following L
          [CHR ''{'', CHR 0x22, CHR ''a'', CHR 0x22, CHR '':'', CHR ''1''] = Inr False)"
  using json_check_fenced[of tag L body w1 w2] json_check_truncated[of L] by blast

theorem C5_json_fence_listed_casings_witness:
  "JsonFormatChecker_check_following 1000
     (''```JSON\<newline>{'' @ [CHR 0x22] @ ''a'' @ [CHR 0x22] @ '':1}\<newline>```'') = Inr True
   \<and> JsonFormatChecker_check_following 1000
       [CHR ''{'', CHR 0x22, CHR ''a'', CHR 0x22, CHR '':'', CHR ''1''] = Inr False"
proof -
  let ?body = "[CHR ''{'', CHR 0x22, CHR ''a'', CHR 0x22, CHR '':'', CHR ''1'', CHR ''}'']"
  have b: "json_loads 1000 ?body = Inr ()"
    by code_simp
  have w: "\<forall>c \<in> set ''\<newline>''. is_space c"
    by code_simp
  have t: "''JSON'' \<in> {''json'', ''Json'', ''JSON''}"
    by simp
  have "(0::nat) < 1000"
    by simp
  with C5_json_fence_listed_casings[of "''JSON''" 1000 ?body "''\<newline>''" "''\<newline>''"] b w t
  show ?thesis
    by simp
qed

text \<open>
  C5 as stated takes any casing of the tag. For a casing outside the three it fails: the object \<open>{"a":1}\<close> is valid
  JSON, and in a fence tagged \<open>jSoN\<close> the check answers false, since only the bare fence
  marker is removed and \<open>jSoN\<close> stays in front of the object.
\<close>

theorem C5_counterexample:
  "json_loads 1000 [CHR ''{'', CHR 0x22, CHR ''a'', CHR 0x22, CHR '':'', CHR ''1'', CHR ''}''] = Inr ()
   \<and> JsonFormatChecker_check_following 1000
       (''```jSoN\<newline>{'' @ [CHR 0x22] @ ''a'' @ [CHR 0x22] @ '':1}\<newline>```'') = Inr False"
proof -
  have "json_loads 1000 [CHR ''{'', CHR 0x22, CHR ''a'', CHR 0x22, CHR '':'', CHR ''1'', CHR ''}'']
      = Inr ()"
    by code_simp
  moreover have "JsonFormatChecker_check_following 1000
       (''```jSoN\<newline>{'' @ [CHR 0x22] @ ''a'' @ [CHR 0x22] @ '':1}\<newline>```'') = Inr False"
    by code_simp
  ultimately show ?thesis
    by simp
qed

subsection \<open>Exceptions of the parsers\<close>

lemma run_brackets_too_deep:
  assumes "st = SValue \<or> st = SArrayStart" "length stk \<le> L" "L < length stk + n"
  shows "run L (st, stk) (replicate n CHR ''['') = Inl RecursionError"
  using assms
proof (induction n arbitrary: st stk)
  case 0
  then show ?case
    by simp
next
  case (Suc n)
  show ?case
  proof (cases "L \<le> length stk")
    case True
    with Suc.prems(1) show ?thesis
      by (auto simp: value_start_def enter_def json_whitespace_def)
  next
    case False
    then have "run L (SArrayStart, InArray # stk) (replicate n CHR ''['') = Inl RecursionError"
      using Suc.prems by (intro Suc.IH) simp_all
    with False Suc.prems(1) show ?thesis
      by (auto simp: value_start_def enter_def json_whitespace_def)
  qed
qed

lemma json_loads_brackets_too_deep:
  "json_loads L (replicate (Suc L) CHR ''['') = Inl RecursionError"
  using run_brackets_too_deep[of SValue "[]" L "Suc L"] by (simp add: json_loads_def)

lemma strip_brackets: "strip (replicate (Suc n) CHR ''['') = replicate (Suc n) CHR ''[''"
proof (rule strip_unchanged)
  show "replicate (Suc n) CHR ''['' \<noteq> []"
    by simp
  show "\<not> is_space (hd (replicate (Suc n) CHR ''[''))"
    by (simp add: is_space_def whitespace_chars_def)
  show "\<not> is_space (last (replicate (Suc n) CHR ''[''))"
    by (simp add: is_space_def whitespace_chars_def)
qed

lemma json_fence_stripped_brackets:
  "json_fence_stripped (replicate (Suc n) CHR ''['') = replicate (Suc n) CHR ''[''"
proof -
  let ?s = "replicate (Suc n) CHR ''[''"
  have p: "removeprefix ?s (CHR 0x60 # ps) = ?s" for ps
    by (simp add: removeprefix_other)
  have "?s = replicate n CHR ''['' @ [CHR ''['']"
    by (simp only: replicate_append_same replicate_Suc)
  then have q: "removesuffix ?s ''```'' = ?s"
    using removesuffix_fence_other[of "CHR ''[''" "replicate n CHR ''[''"] by simp
  show ?thesis
    unfolding json_fence_stripped_def strip_brackets
    by (simp only: p q strip_brackets)
qed

lemma json_check_brackets_too_deep:
  "JsonFormatChecker_check_following L (replicate (Suc L) CHR ''['') = Inl RecursionError"
  by (simp only: JsonFormatChecker_check_following_def json_fence_stripped_brackets
      json_loads_brackets_too_deep Let_def sum.case py_exception.case)

lemma list_check_propagates:
  assumes "literal_eval ''{[1]: 2}'' = Inl TypeError"
  shows "PythonListFormatChecker_check_following literal_eval ''{[1]: 2}'' = Inl TypeError"
proof -
  have "strip ''{[1]: 2}'' = ''{[1]: 2}''"
    by code_simp
  with assms show ?thesis
    by (simp add: PythonListFormatChecker_check_following_def endswith_def)
qed

text \<open>
  C7. The claim has both checks answer false whenever the parser fails. The methods catch
  \<open>ValueError\<close> (and \<open>SyntaxError\<close> for the list literal) only. On \<open>{[1]: 2}\<close>
  \<open>ast.literal_eval\<close> raises \<open>TypeError\<close>, a list being unhashable, and the exception leaves
  the list-literal check. On a text that opens more arrays than the interpreter has
  recursion depth left \<open>json.loads\<close> raises \<open>RecursionError\<close>, and it leaves the
  json-validity check.
\<close>

theorem C7_parser_exception_leaves_the_check:
  "(literal_eval ''{[1]: 2}'' = Inl TypeError
      \<longrightarrow> PythonListFormatChecker_check_following literal_eval ''{[1]: 2}'' = Inl TypeError)
   \<and> JsonFormatChecker_check_following L (replicate (Suc L) CHR ''['') = Inl RecursionError"
  using list_check_propagates[of literal_eval] json_check_brackets_too_deep[of L] by blast

theorem C7_parser_exception_leaves_the_check_witness:
  "PythonListFormatChecker_check_following
      (\<lambda>s. if s = ''{[1]: 2}'' then Inl TypeError else Inl SyntaxError) ''{[1]: 2}'' = Inl TypeError
   \<and> JsonFormatChecker_check_following 3 ''[[[['' = Inl RecursionError"
  using C7_parser_exception_leaves_the_check
    [of "\<lambda>s. if s = ''{[1]: 2}'' then Inl TypeError else Inl SyntaxError" 3]
  by (simp add: numeral_3_eq_3)

end
